theory Spec2Isabelle
  imports Main "HOL-Library.Word"
begin

section \<open>The contract: contracts/EncryptedGallery.sol\<close>

text \<open>
  Solidity values: an \<open>address\<close> is a 160-bit word (\<open>address(0)\<close> is \<open>0\<close>), an
  \<open>euint256\<close> and an \<open>externalEuint256\<close> are 256-bit handles, \<open>bytes\<close> is a list of
  octets. A \<open>uint256\<close> is a natural number; the only arithmetic on one is the checked
  increment of the image counter, whose overflow panic is written out.
\<close>

type_synonym address = "160 word"
type_synonym euint256 = "256 word"
type_synonym externalEuint256 = "256 word"
type_synonym bytes = "8 word list"

record EncryptedImage =
  creator :: address
  ipfsHash :: string
  encryptedKey :: euint256
  createdAt :: nat

definition ACCESS_PRICE :: nat where
  "ACCESS_PRICE = 1000000000000000"

definition uint256_max :: nat where
  "uint256_max = 2 ^ 256 - 1"

datatype event =
    ImageListed nat address string
  | ImagePurchased nat address nat
  | AccessGranted nat address

text \<open>
  Every \<open>require\<close> message of the contract, the arithmetic panic of \<open>++_nextImageId\<close>,
  the revert of \<open>FHE.fromExternal\<close> on an input it does not accept, and the revert of a
  function that is not \<open>payable\<close> when the call carries ether.
\<close>

datatype error =
    Invalid_hash
  | Image_missing
  | Creator_restricted
  | Already_purchased
  | Incorrect_price
  | Payout_failed
  | Invalid_account
  | Not_creator
  | Panic_overflow
  | FHE_input_rejected
  | Value_to_nonpayable

text \<open>
  The storage of the contract (\<open>_nextImageId\<close>, \<open>_images\<close>, \<open>_hasPurchased\<close>), and what
  its calls change outside it: the access list of the FHE library (\<open>FHE.allow\<close>,
  \<open>FHE.allowThis\<close>), the ether the contract holds, the ether it has forwarded to each
  address, and the event log.
\<close>

record gallery =
  nextImageId :: nat
  images :: "nat \<Rightarrow> EncryptedImage"
  hasPurchased_store :: "nat \<Rightarrow> address \<Rightarrow> bool"
  fhe_allowed :: "euint256 \<Rightarrow> address \<Rightarrow> bool"
  held :: nat
  forwarded :: "address \<Rightarrow> nat"
  events :: "event list"

text \<open>
  What a call sees of its transaction and of the world: the contract's own address,
  \<open>msg.sender\<close>, \<open>msg.value\<close>, \<open>block.timestamp\<close>, the library function
  \<open>FHE.fromExternal\<close> (\<open>None\<close> where it reverts), and whether the low-level call that
  pays the creator returns \<open>sent = true\<close>. The recipient of that call is taken not to
  call back into the contract.
\<close>

record env =
  this :: address
  msg_sender :: address
  msg_value :: nat
  block_timestamp :: nat
  fromExternal :: "externalEuint256 \<Rightarrow> bytes \<Rightarrow> euint256 option"
  sent :: bool

definition empty_image :: EncryptedImage where
  "empty_image = \<lparr>creator = 0, ipfsHash = [], encryptedKey = 0, createdAt = 0\<rparr>"

definition deployed :: gallery where
  "deployed = \<lparr>nextImageId = 0, images = (\<lambda>_. empty_image),
     hasPurchased_store = (\<lambda>_ _. False), fhe_allowed = (\<lambda>_ _. False),
     held = 0, forwarded = (\<lambda>_. 0), events = []\<rparr>"

definition FHE_allow :: "euint256 \<Rightarrow> address \<Rightarrow> gallery \<Rightarrow> gallery" where
  "FHE_allow h a s = s\<lparr>fhe_allowed := (fhe_allowed s)(h := (fhe_allowed s h)(a := True))\<rparr>"

definition emit :: "event \<Rightarrow> gallery \<Rightarrow> gallery" where
  "emit ev s = s\<lparr>events := events s @ [ev]\<rparr>"

text \<open>
  \<open>listEncryptedImage\<close> and \<open>grantAccess\<close> are not \<open>payable\<close>: a call of either that
  carries ether reverts before the body runs.
\<close>

definition listEncryptedImage ::
  "env \<Rightarrow> string \<Rightarrow> externalEuint256 \<Rightarrow> bytes \<Rightarrow> gallery \<Rightarrow> error + (nat \<times> gallery)" where
  "listEncryptedImage e ipfsHash' encryptedKey' inputProof s =
     (if \<not> msg_value e = 0 then Inl Value_to_nonpayable
      else if \<not> length ipfsHash' > 0 then Inl Invalid_hash
      else case fromExternal e encryptedKey' inputProof of
        None \<Rightarrow> Inl FHE_input_rejected
      | Some storedKey \<Rightarrow>
          if nextImageId s = uint256_max then Inl Panic_overflow
          else
            let imageId = nextImageId s + 1;
                s1 = s\<lparr>nextImageId := imageId\<rparr>;
                s2 = s1\<lparr>images := (images s1)(imageId := (images s1 imageId)
                       \<lparr>creator := msg_sender e, ipfsHash := ipfsHash',
                        encryptedKey := storedKey, createdAt := block_timestamp e\<rparr>)\<rparr>;
                s3 = FHE_allow storedKey (this e) s2;
                s4 = FHE_allow storedKey (msg_sender e) s3
            in Inr (imageId, emit (ImageListed imageId (msg_sender e) ipfsHash') s4))"

text \<open>
  \<open>purchaseImage\<close> is payable: when its body starts the contract holds \<open>msg.value\<close>
  more. A failed \<open>require\<close> reverts that together with every write of the body.
\<close>

definition purchaseImage :: "env \<Rightarrow> nat \<Rightarrow> gallery \<Rightarrow> error + gallery" where
  "purchaseImage e imageId s =
     (let image = images s imageId in
      if \<not> creator image \<noteq> 0 then Inl Image_missing
      else if \<not> msg_sender e \<noteq> creator image then Inl Creator_restricted
      else if \<not> \<not> hasPurchased_store s imageId (msg_sender e) then Inl Already_purchased
      else if \<not> msg_value e = ACCESS_PRICE then Inl Incorrect_price
      else
        let s0 = s\<lparr>held := held s + msg_value e\<rparr>;
            s1 = s0\<lparr>hasPurchased_store := (hasPurchased_store s0)
                   (imageId := (hasPurchased_store s0 imageId)(msg_sender e := True))\<rparr>
        in if \<not> sent e then Inl Payout_failed
           else
             let s2 = s1\<lparr>held := held s1 - msg_value e,
                        forwarded := (forwarded s1)
                          (creator image := forwarded s1 (creator image) + msg_value e)\<rparr>;
                 s3 = FHE_allow (encryptedKey image) (msg_sender e) s2;
                 s4 = emit (ImagePurchased imageId (msg_sender e) (msg_value e)) s3
             in Inr (emit (AccessGranted imageId (msg_sender e)) s4))"

definition grantAccess :: "env \<Rightarrow> nat \<Rightarrow> address \<Rightarrow> gallery \<Rightarrow> error + gallery" where
  "grantAccess e imageId account s =
     (if \<not> msg_value e = 0 then Inl Value_to_nonpayable
      else if \<not> account \<noteq> 0 then Inl Invalid_account
      else
        let image = images s imageId in
        if \<not> creator image \<noteq> 0 then Inl Image_missing
        else if \<not> creator image = msg_sender e then Inl Not_creator
        else Inr (emit (AccessGranted imageId account)
                    (FHE_allow (encryptedKey image) account s)))"

definition getImage ::
  "nat \<Rightarrow> gallery \<Rightarrow> error + (address \<times> string \<times> nat \<times> nat \<times> euint256)" where
  "getImage imageId s =
     (let image = images s imageId in
      if \<not> creator image \<noteq> 0 then Inl Image_missing
      else Inr (creator image, ipfsHash image, ACCESS_PRICE, createdAt image,
                encryptedKey image))"

definition getTotalImages :: "gallery \<Rightarrow> nat" where
  "getTotalImages s = nextImageId s"

definition hasPurchased :: "nat \<Rightarrow> address \<Rightarrow> gallery \<Rightarrow> error + bool" where
  "hasPurchased imageId account s =
     (let image = images s imageId in
      if \<not> creator image \<noteq> 0 then Inl Image_missing
      else Inr (account = creator image \<or> hasPurchased_store s imageId account))"

subsection \<open>Transactions\<close>

text \<open>
  A transaction is one external call of a state-changing function. A call that reverts
  leaves the state as it was and reports the error.
\<close>

datatype call =
    ListEncryptedImage string externalEuint256 bytes
  | PurchaseImage nat
  | GrantAccess nat address

fun exec :: "env \<times> call \<Rightarrow> gallery \<Rightarrow> error option \<times> gallery" where
  "exec (e, ListEncryptedImage h k p) s =
     (case listEncryptedImage e h k p s of
        Inl err \<Rightarrow> (Some err, s) | Inr (_, s') \<Rightarrow> (None, s'))"
| "exec (e, PurchaseImage i) s =
     (case purchaseImage e i s of
        Inl err \<Rightarrow> (Some err, s) | Inr s' \<Rightarrow> (None, s'))"
| "exec (e, GrantAccess i a) s =
     (case grantAccess e i a s of
        Inl err \<Rightarrow> (Some err, s) | Inr s' \<Rightarrow> (None, s'))"

fun run :: "(env \<times> call) list \<Rightarrow> gallery \<Rightarrow> gallery" where
  "run [] s = s"
| "run (t # ts) s = run ts (snd (exec t s))"

subsection \<open>Observations and invariants of the contract state\<close>

text \<open>
  The ids of the \<open>ImageListed\<close> events of a log, in order: the ids the contract has
  assigned so far.
\<close>

definition listed_ids :: "event list \<Rightarrow> nat list" where
  "listed_ids evs =
     concat (map (\<lambda>ev. case ev of ImageListed j _ _ \<Rightarrow> [j] | _ \<Rightarrow> []) evs)"

text \<open>
  Three invariants of the states the contract reaches: no image is stored above the
  counter; an image is stored exactly at the ids from 1 to the counter; the log lists
  exactly those ids, once each and in order.
\<close>

definition no_image_above :: "gallery \<Rightarrow> bool" where
  "no_image_above s = (\<forall>i. nextImageId s < i \<longrightarrow> creator (images s i) = 0)"

definition ids_exact :: "gallery \<Rightarrow> bool" where
  "ids_exact s = (\<forall>i. (creator (images s i) \<noteq> 0) = (1 \<le> i \<and> i \<le> nextImageId s))"

definition log_exact :: "gallery \<Rightarrow> bool" where
  "log_exact s = (listed_ids (events s) = [1 ..< Suc (nextImageId s)])"

subsection \<open>A worked scenario\<close>

text \<open>
  A concrete environment (contract at address 99, an input proof accepted when it is not
  empty) with the caller, the value sent and the outcome of the payout left open, and
  the state after account 1 has listed one image. The examples below run on them.
\<close>

definition sample_env :: "address \<Rightarrow> nat \<Rightarrow> bool \<Rightarrow> env" where
  "sample_env a v b = \<lparr>this = 99, msg_sender = a, msg_value = v, block_timestamp = 7,
     fromExternal = (\<lambda>h p. if p = [] then None else Some h), sent = b\<rparr>"

definition listed1 :: gallery where
  "listed1 = run [(sample_env 1 0 True, ListEncryptedImage ''h'' 5 [1])] deployed"

section \<open>The cipher: app/src/utils/crypto.ts\<close>

text \<open>
  JavaScript values: a \<open>Uint8Array\<close> is a list of octets, a string is a list of
  characters (code units up to 255; the key strings of the application are ASCII), a
  \<open>BigInt\<close> that is not negative is a natural number. A thrown \<open>Error\<close> is the left
  summand of the result.
\<close>

definition AES_IV_LENGTH :: nat where
  "AES_IV_LENGTH = 12"

text \<open>
  The three messages that \<open>crypto.ts\<close> throws, and the \<open>OperationError\<close> with which
  \<open>crypto.subtle.decrypt\<close> rejects.
\<close>

datatype crypto_error =
    Invalid_hex_string
  | Key_not_32_bytes
  | Payload_too_short
  | Operation_error

text \<open>
  \<open>parseInt(s, 16)\<close> as ECMAScript defines it: leading white space is skipped, then a
  sign, then an optional \<open>0x\<close>; the longest run of hexadecimal digits that follows is
  the value, and there is none (\<open>NaN\<close>) when that run is empty. Stored into a
  \<open>Uint8Array\<close>, \<open>NaN\<close> becomes 0 and a number is taken modulo 256.
\<close>

definition hexDigitValue :: "char \<Rightarrow> nat option" where
  "hexDigitValue c =
     (let n = (of_char c :: nat) in
      if 48 \<le> n \<and> n \<le> 57 then Some (n - 48)
      else if 97 \<le> n \<and> n \<le> 102 then Some (n - 87)
      else if 65 \<le> n \<and> n \<le> 70 then Some (n - 55)
      else None)"

definition isStrWhiteSpace :: "char \<Rightarrow> bool" where
  "isStrWhiteSpace c = ((of_char c :: nat) \<in> {9, 10, 11, 12, 13, 32, 160})"

definition hexValue :: "string \<Rightarrow> nat" where
  "hexValue ds = foldl (\<lambda>a c. 16 * a + (case hexDigitValue c of Some d \<Rightarrow> d | None \<Rightarrow> 0)) 0 ds"

definition parseInt16 :: "string \<Rightarrow> int option" where
  "parseInt16 s =
     (let s1 = dropWhile isStrWhiteSpace s;
          sign = (if take 1 s1 = ''-'' then - 1 else 1);
          s2 = (if take 1 s1 = ''-'' \<or> take 1 s1 = ''+'' then drop 1 s1 else s1);
          s3 = (if take 2 s2 = ''0x'' \<or> take 2 s2 = ''0X'' then drop 2 s2 else s2);
          ds = takeWhile (\<lambda>c. hexDigitValue c \<noteq> None) s3
      in if ds = [] then None else Some (sign * int (hexValue ds)))"

definition toUint8 :: "int option \<Rightarrow> 8 word" where
  "toUint8 v = (case v of None \<Rightarrow> 0 | Some i \<Rightarrow> word_of_int i)"

text \<open>
  The loop of \<open>hexToBytes\<close> reads two characters at a time. Its second equation is
  never reached from \<open>hexToBytes\<close>, which refuses a string of odd length first.
\<close>

fun hexToBytes_loop :: "string \<Rightarrow> bytes" where
  "hexToBytes_loop (a # b # rest) = toUint8 (parseInt16 [a, b]) # hexToBytes_loop rest"
| "hexToBytes_loop [a] = [toUint8 (parseInt16 [a])]"
| "hexToBytes_loop [] = []"

definition hexToBytes :: "string \<Rightarrow> crypto_error + bytes" where
  "hexToBytes hex =
     (let clean = (if take 2 hex = ''0x'' then drop 2 hex else hex) in
      if length clean mod 2 \<noteq> 0 then Inl Invalid_hex_string
      else Inr (hexToBytes_loop clean))"

text \<open>
  A \<open>CryptoKey\<close> is the 32 octets it was imported from.
\<close>

definition importAesKey :: "string \<Rightarrow> crypto_error + bytes" where
  "importAesKey keyHex =
     (case hexToBytes keyHex of
        Inl err \<Rightarrow> Inl err
      | Inr keyBytes \<Rightarrow>
          if length keyBytes \<noteq> 32 then Inl Key_not_32_bytes else Inr keyBytes)"

text \<open>
  \<open>target.set(source, offset)\<close>. In \<open>encryptContent\<close> the target is allocated with
  the two lengths added, so the copy never runs past its end.
\<close>

definition Uint8Array_set :: "bytes \<Rightarrow> bytes \<Rightarrow> nat \<Rightarrow> bytes" where
  "Uint8Array_set target source offset =
     take offset target @ source @ drop (offset + length source) target"

text \<open>
  AES-GCM itself is the browser's: \<open>crypto.subtle.encrypt\<close> and
  \<open>crypto.subtle.decrypt\<close> are parameters of the two functions, taking the key, the
  nonce and the data; decryption answers \<open>None\<close> where the browser rejects. The twelve
  octets that \<open>crypto.getRandomValues\<close> draws are the parameter \<open>iv\<close>.
\<close>

definition encryptContent ::
  "(bytes \<Rightarrow> bytes \<Rightarrow> bytes \<Rightarrow> bytes) \<Rightarrow> bytes \<Rightarrow> bytes \<Rightarrow> string \<Rightarrow> crypto_error + bytes" where
  "encryptContent gcm_encrypt iv plain keyHex =
     (case importAesKey keyHex of
        Inl err \<Rightarrow> Inl err
      | Inr key \<Rightarrow>
          let encryptedBytes = gcm_encrypt key iv plain;
              payload = replicate (length iv + length encryptedBytes) 0;
              payload = Uint8Array_set payload iv 0;
              payload = Uint8Array_set payload encryptedBytes (length iv)
          in Inr payload)"

definition decryptContent ::
  "(bytes \<Rightarrow> bytes \<Rightarrow> bytes \<Rightarrow> bytes option) \<Rightarrow> bytes \<Rightarrow> string \<Rightarrow> crypto_error + bytes" where
  "decryptContent gcm_decrypt payload keyHex =
     (if length payload \<le> AES_IV_LENGTH then Inl Payload_too_short
      else
        let iv = take AES_IV_LENGTH payload;
            ciphertext = drop AES_IV_LENGTH payload
        in case importAesKey keyHex of
             Inl err \<Rightarrow> Inl err
           | Inr key \<Rightarrow>
               (case gcm_decrypt key iv ciphertext of
                  None \<Rightarrow> Inl Operation_error
                | Some decrypted \<Rightarrow> Inr decrypted))"

section \<open>The content key: app/src/components/GalleryApp.tsx\<close>

text \<open>
  \<open>handleDecrypt\<close> turns the unsealed integer into the key string with
  \<open>keyBigInt.toString(16).padStart(64, '0')\<close> behind \<open>0x\<close>, and passes that string to
  \<open>decryptContent\<close>. \<open>handleEncrypt\<close> passes \<open>wallet.privateKey\<close> to \<open>encryptContent\<close>
  and seals \<open>BigInt(wallet.privateKey)\<close>.
\<close>

definition hexChar :: "nat \<Rightarrow> char" where
  "hexChar d = ''0123456789abcdef'' ! d"

function BigInt_toString16 :: "nat \<Rightarrow> string" where
  "BigInt_toString16 n =
     (if n < 16 then [hexChar n] else BigInt_toString16 (n div 16) @ [hexChar (n mod 16)])"
  by pat_completeness auto
termination
  by (relation "measure id") auto

definition padStart :: "nat \<Rightarrow> string \<Rightarrow> string \<Rightarrow> string" where
  "padStart targetLength padString s =
     (if targetLength \<le> length s \<or> padString = [] then s
      else take (targetLength - length s)
             (concat (replicate (targetLength - length s) padString)) @ s)"

definition handleDecrypt_keyHex :: "nat \<Rightarrow> string" where
  "handleDecrypt_keyHex keyBigInt = ''0x'' @ padStart 64 ''0'' (BigInt_toString16 keyBigInt)"

text \<open>
  The number that a list of octets writes, most significant octet first.
\<close>

definition bigEndian :: "bytes \<Rightarrow> nat" where
  "bigEndian bs = foldl (\<lambda>a b. 256 * a + unat b) 0 bs"

text \<open>
  A character is a hexadecimal digit.
\<close>

definition isHex :: "char \<Rightarrow> bool" where
  "isHex c = (hexDigitValue c \<noteq> None)"

subsection \<open>A worked cipher\<close>

text \<open>
  A stand-in for AES-GCM with the same shape, for the worked examples only: the data
  followed by sixteen octets taken from the key and the nonce, checked and removed again
  on the way back. With it come a key string of 64 digits and a nonce.
\<close>

definition sample_gcm_encrypt :: "bytes \<Rightarrow> bytes \<Rightarrow> bytes \<Rightarrow> bytes" where
  "sample_gcm_encrypt key iv plain = plain @ take 16 (key @ iv)"

definition sample_gcm_decrypt :: "bytes \<Rightarrow> bytes \<Rightarrow> bytes \<Rightarrow> bytes option" where
  "sample_gcm_decrypt key iv data =
     (if length data < 16 then None
      else if drop (length data - 16) data = take 16 (key @ iv)
           then Some (take (length data - 16) data) else None)"

definition sample_key :: string where
  "sample_key = ''0x000102030405060708090a0b0c0d0e0f101112131415161718191a1b1c1d1e1f''"

definition sample_iv :: bytes where
  "sample_iv = [1, 2, 3, 4, 5, 6, 7, 8, 9, 10, 11, 12]"

section \<open>Properties of the contract\<close>

subsection \<open>What a successful call changes\<close>

lemma listed_ids_append [simp]: "listed_ids (xs @ ys) = listed_ids xs @ listed_ids ys"
  by (simp add: listed_ids_def)

lemma listed_ids_simps [simp]:
  "listed_ids [] = []"
  "listed_ids (ImageListed j c h # evs) = j # listed_ids evs"
  "listed_ids (ImagePurchased j c v # evs) = listed_ids evs"
  "listed_ids (AccessGranted j c # evs) = listed_ids evs"
  by (simp_all add: listed_ids_def)

lemma purchase_Inr:
  "purchaseImage e i s = Inr s' \<Longrightarrow>
     creator (images s i) \<noteq> 0 \<and> msg_sender e \<noteq> creator (images s i) \<and>
     \<not> hasPurchased_store s i (msg_sender e) \<and> msg_value e = ACCESS_PRICE \<and> sent e \<and>
     s' = s\<lparr>hasPurchased_store := (hasPurchased_store s)
                (i := (hasPurchased_store s i)(msg_sender e := True)),
            fhe_allowed := (fhe_allowed s)(encryptedKey (images s i) :=
                (fhe_allowed s (encryptedKey (images s i)))(msg_sender e := True)),
            forwarded := (forwarded s)(creator (images s i) :=
                forwarded s (creator (images s i)) + ACCESS_PRICE),
            events := events s @ [ImagePurchased i (msg_sender e) ACCESS_PRICE,
                                  AccessGranted i (msg_sender e)]\<rparr>"
  by (auto simp: purchaseImage_def Let_def FHE_allow_def emit_def split: if_splits)

lemma grant_Inr:
  "grantAccess e i a s = Inr s' \<Longrightarrow>
     a \<noteq> 0 \<and> creator (images s i) \<noteq> 0 \<and> creator (images s i) = msg_sender e \<and>
     s' = s\<lparr>fhe_allowed := (fhe_allowed s)(encryptedKey (images s i) :=
                (fhe_allowed s (encryptedKey (images s i)))(a := True)),
            events := events s @ [AccessGranted i a]\<rparr>"
  by (auto simp: grantAccess_def Let_def FHE_allow_def emit_def split: if_splits)

lemma list_Inr:
  "listEncryptedImage e h k p s = Inr (n, s') \<Longrightarrow>
     h \<noteq> [] \<and> nextImageId s \<noteq> uint256_max \<and> n = nextImageId s + 1 \<and>
     (\<exists>sk. fromExternal e k p = Some sk \<and>
     s' = s\<lparr>nextImageId := n,
            images := (images s)(n := (images s n)\<lparr>creator := msg_sender e,
                        ipfsHash := h, encryptedKey := sk,
                        createdAt := block_timestamp e\<rparr>),
            fhe_allowed := (fhe_allowed s)(sk := (fhe_allowed s sk)
                        (this e := True, msg_sender e := True)),
            events := events s @ [ImageListed n (msg_sender e) h]\<rparr>)"
  by (auto simp: listEncryptedImage_def Let_def FHE_allow_def emit_def
      split: if_splits option.splits)

lemma list_frame:
  assumes "listEncryptedImage e h k p s = Inr (n, s')"
  shows "n = nextImageId s + 1" and "nextImageId s' = nextImageId s + 1"
    and "creator (images s' i) = (if i = n then msg_sender e else creator (images s i))"
    and "listed_ids (events s') = listed_ids (events s) @ [n]"
  using list_Inr [OF assms] by auto

lemma purchase_frame:
  assumes "purchaseImage e i s = Inr s'"
  shows "nextImageId s' = nextImageId s" and "images s' = images s"
    and "listed_ids (events s') = listed_ids (events s)"
  using purchase_Inr [OF assms] by auto

lemma grant_frame:
  assumes "grantAccess e i a s = Inr s'"
  shows "nextImageId s' = nextImageId s" and "images s' = images s"
    and "listed_ids (events s') = listed_ids (events s)"
  using grant_Inr [OF assms] by auto

lemma exec_purchase:
  "exec (e, PurchaseImage i) s = (r, s') \<Longrightarrow>
     (r = None \<and> purchaseImage e i s = Inr s') \<or> (\<exists>err. r = Some err \<and> s' = s)"
  by (auto split: sum.splits)

lemma exec_grant:
  "exec (e, GrantAccess i a) s = (r, s') \<Longrightarrow>
     (r = None \<and> grantAccess e i a s = Inr s') \<or> (\<exists>err. r = Some err \<and> s' = s)"
  by (auto split: sum.splits)

lemma exec_list:
  "exec (e, ListEncryptedImage h k p) s = (r, s') \<Longrightarrow>
     (r = None \<and> (\<exists>n. listEncryptedImage e h k p s = Inr (n, s'))) \<or>
     (\<exists>err. r = Some err \<and> s' = s)"
  by (auto split: sum.splits)

lemma exec_shape:
  "(\<exists>err. exec (e, c) s = (Some err, s)) \<or>
   (\<exists>h k p n s'. c = ListEncryptedImage h k p \<and> listEncryptedImage e h k p s = Inr (n, s')
       \<and> exec (e, c) s = (None, s')) \<or>
   (\<exists>i s'. c = PurchaseImage i \<and> purchaseImage e i s = Inr s' \<and> exec (e, c) s = (None, s')) \<or>
   (\<exists>i a s'. c = GrantAccess i a \<and> grantAccess e i a s = Inr s' \<and> exec (e, c) s = (None, s'))"
  by (cases c) (auto split: sum.splits)

lemma run_append: "run (ts @ us) s = run us (run ts s)"
  by (induction ts arbitrary: s) simp_all

lemma missing_iff:
  "(getImage i s = Inl Image_missing) = (creator (images s i) = 0)"
  "(hasPurchased i a s = Inl Image_missing) = (creator (images s i) = 0)"
  "(purchaseImage e i s = Inl Image_missing) = (creator (images s i) = 0)"
  by (simp_all add: getImage_def hasPurchased_def purchaseImage_def Let_def)

subsection \<open>Evaluation of the worked scenario\<close>

lemmas scenario_defs = listed1_def sample_env_def deployed_def empty_image_def uint256_max_def
  ACCESS_PRICE_def listEncryptedImage_def purchaseImage_def grantAccess_def
  hasPurchased_def getImage_def getTotalImages_def FHE_allow_def emit_def Let_def

subsection \<open>Invariants\<close>

lemma no_image_above_exec:
  assumes "no_image_above s"
  shows "no_image_above (snd (exec t s))"
proof -
  obtain e c where t: "t = (e, c)" by (cases t)
  obtain r s' where x: "exec (e, c) s = (r, s')" by (cases "exec (e, c) s")
  have "no_image_above s'"
  proof (cases c)
    case (ListEncryptedImage h k p)
    with x exec_list [of e h k p s r s'] assms show ?thesis
      by (auto dest!: list_Inr simp: no_image_above_def)
  next
    case (PurchaseImage i)
    with x exec_purchase [of e i s r s'] assms show ?thesis
      by (auto dest!: purchase_Inr simp: no_image_above_def)
  next
    case (GrantAccess i a)
    with x exec_grant [of e i a s r s'] assms show ?thesis
      by (auto dest!: grant_Inr simp: no_image_above_def)
  qed
  with t x show ?thesis by simp
qed

lemma no_image_above_run: "no_image_above s \<Longrightarrow> no_image_above (run ts s)"
  by (induction ts arbitrary: s) (simp_all add: no_image_above_exec)

lemma no_image_above_deployed: "no_image_above deployed"
  by (simp add: no_image_above_def deployed_def empty_image_def)

lemma ids_exact_exec:
  assumes "ids_exact s" and "msg_sender e \<noteq> 0"
  shows "ids_exact (snd (exec (e, c) s))"
  using exec_shape [of e c s]
proof (elim disjE exE conjE)
  fix err assume "exec (e, c) s = (Some err, s)"
  with assms show ?thesis by simp
next
  fix h k p n s'
  assume l: "listEncryptedImage e h k p s = Inr (n, s')" and x: "exec (e, c) s = (None, s')"
  have "(creator (images s' i) \<noteq> 0) = (1 \<le> i \<and> i \<le> nextImageId s')" for i
  proof (cases "i = n")
    case True
    with assms(2) list_frame(1,2) [OF l] list_frame(3) [OF l, of i] show ?thesis by simp
  next
    case False
    from assms(1) have A: "(creator (images s i) \<noteq> 0) = (1 \<le> i \<and> i \<le> nextImageId s)"
      unfolding ids_exact_def by (rule spec)
    from False list_frame(3) [OF l, of i]
    have B: "creator (images s' i) = creator (images s i)" by simp
    note C = list_frame(2) [OF l]
    from False list_frame(1) [OF l]
    have D: "(1 \<le> i \<and> i \<le> nextImageId s) = (1 \<le> i \<and> i \<le> nextImageId s + 1)"
      by arith
    show ?thesis by (simp only: A B C D)
  qed
  with x show ?thesis by (simp add: ids_exact_def)
next
  fix i s'
  assume "purchaseImage e i s = Inr s'" and "exec (e, c) s = (None, s')"
  with assms(1) show ?thesis by (simp add: ids_exact_def purchase_frame)
next
  fix i a s'
  assume "grantAccess e i a s = Inr s'" and "exec (e, c) s = (None, s')"
  with assms(1) show ?thesis by (simp add: ids_exact_def grant_frame)
qed

lemma ids_exact_run:
  "ids_exact s \<Longrightarrow> \<forall>t\<in>set ts. msg_sender (fst t) \<noteq> 0 \<Longrightarrow> ids_exact (run ts s)"
proof (induction ts arbitrary: s)
  case Nil
  then show ?case by simp
next
  case (Cons t ts)
  obtain e c where t: "t = (e, c)" by (cases t)
  with Cons.prems have "ids_exact (snd (exec t s))"
    by (simp add: ids_exact_exec)
  with Cons show ?case by simp
qed

lemma ids_exact_deployed: "ids_exact deployed"
  by (simp add: ids_exact_def deployed_def empty_image_def)

lemma log_exact_exec:
  assumes "log_exact s"
  shows "log_exact (snd (exec (e, c) s))"
  using exec_shape [of e c s]
proof (elim disjE exE conjE)
  fix err assume "exec (e, c) s = (Some err, s)"
  with assms show ?thesis by simp
next
  fix h k p n s'
  assume l: "listEncryptedImage e h k p s = Inr (n, s')" and x: "exec (e, c) s = (None, s')"
  from assms list_frame(1,2,4) [OF l] have "log_exact s'"
    by (simp add: log_exact_def)
  with x show ?thesis by simp
next
  fix i s'
  assume "purchaseImage e i s = Inr s'" and "exec (e, c) s = (None, s')"
  with assms show ?thesis by (simp add: log_exact_def purchase_frame)
next
  fix i a s'
  assume "grantAccess e i a s = Inr s'" and "exec (e, c) s = (None, s')"
  with assms show ?thesis by (simp add: log_exact_def grant_frame)
qed

lemma log_exact_run: "log_exact s \<Longrightarrow> log_exact (run ts s)"
proof (induction ts arbitrary: s)
  case Nil
  then show ?case by simp
next
  case (Cons t ts)
  obtain e c where t: "t = (e, c)" by (cases t)
  with Cons.prems have "log_exact (snd (exec t s))"
    by (simp add: log_exact_exec)
  with Cons show ?case by simp
qed

lemma log_exact_deployed: "log_exact deployed"
  by (simp add: log_exact_def deployed_def)

lemma log_of_run:
  "listed_ids (events (run ts deployed)) = [1 ..< Suc (nextImageId (run ts deployed))]"
  using log_exact_run [OF log_exact_deployed, of ts] by (simp only: log_exact_def)

lemma count_exec: "nextImageId s \<le> nextImageId (snd (exec (e, c) s))"
  using exec_shape [of e c s]
proof (elim disjE exE conjE)
  fix err assume "exec (e, c) s = (Some err, s)"
  then show ?thesis by simp
next
  fix h k p n s'
  assume l: "listEncryptedImage e h k p s = Inr (n, s')" and x: "exec (e, c) s = (None, s')"
  with list_frame(2) [OF l] show ?thesis by simp
next
  fix i s'
  assume "purchaseImage e i s = Inr s'" and "exec (e, c) s = (None, s')"
  then show ?thesis by (simp add: purchase_frame)
next
  fix i a s'
  assume "grantAccess e i a s = Inr s'" and "exec (e, c) s = (None, s')"
  then show ?thesis by (simp add: grant_frame)
qed

lemma authorized_exec:
  assumes "no_image_above s" and "hasPurchased i a s = Inr True"
  shows "hasPurchased i a (snd (exec t s)) = Inr True"
proof -
  obtain e c where t: "t = (e, c)" by (cases t)
  obtain r s' where x: "exec (e, c) s = (r, s')" by (cases "exec (e, c) s")
  from assms(2) have ex: "creator (images s i) \<noteq> 0"
    by (auto simp: hasPurchased_def Let_def split: if_splits)
  with assms(1) have le: "i \<le> nextImageId s"
    by (auto simp: no_image_above_def not_less [symmetric])
  have "hasPurchased i a s' = Inr True"
  proof (cases c)
    case (ListEncryptedImage h k p)
    with x exec_list [of e h k p s r s'] assms(2) le show ?thesis
      by (auto dest!: list_Inr simp: hasPurchased_def Let_def)
  next
    case (PurchaseImage j)
    with x exec_purchase [of e j s r s'] assms(2) show ?thesis
      by (auto dest!: purchase_Inr simp: hasPurchased_def Let_def split: if_splits)
  next
    case (GrantAccess j b)
    with x exec_grant [of e j b s r s'] assms(2) show ?thesis
      by (auto dest!: grant_Inr simp: hasPurchased_def Let_def)
  qed
  with t x show ?thesis by simp
qed

lemma authorized_run:
  "no_image_above s \<Longrightarrow> hasPurchased i a s = Inr True \<Longrightarrow>
     hasPurchased i a (run ts s) = Inr True"
  by (induction ts arbitrary: s) (simp_all add: no_image_above_exec authorized_exec)

lemma list_succeeds:
  assumes "msg_value e = 0" and "h \<noteq> []" and "fromExternal e k p = Some sk"
      and "msg_sender e \<noteq> 0" and "nextImageId s < uint256_max"
  shows "\<exists>s'. listEncryptedImage e h k p s = Inr (nextImageId s + 1, s') \<and>
              nextImageId s' = nextImageId s + 1 \<and>
              hasPurchased (nextImageId s + 1) (msg_sender e) s' = Inr True \<and>
              encryptedKey (images s' (nextImageId s + 1)) = sk \<and>
              fhe_allowed s' sk (msg_sender e) \<and> fhe_allowed s' sk (this e)"
  using assms
  by (simp add: listEncryptedImage_def Let_def FHE_allow_def emit_def hasPurchased_def)

lemma list_reverts:
  "msg_value e \<noteq> 0 \<Longrightarrow>
     exec (e, ListEncryptedImage h k p) s = (Some Value_to_nonpayable, s)"
  "msg_value e = 0 \<Longrightarrow> exec (e, ListEncryptedImage [] k p) s = (Some Invalid_hash, s)"
  "msg_value e = 0 \<Longrightarrow> h \<noteq> [] \<Longrightarrow> fromExternal e k p = None \<Longrightarrow>
     exec (e, ListEncryptedImage h k p) s = (Some FHE_input_rejected, s)"
  "msg_value e = 0 \<Longrightarrow> h \<noteq> [] \<Longrightarrow> fromExternal e k p = Some sk \<Longrightarrow>
     nextImageId s = uint256_max \<Longrightarrow>
     exec (e, ListEncryptedImage h k p) s = (Some Panic_overflow, s)"
  by (simp_all add: listEncryptedImage_def)

lemma allowed_exec:
  assumes "fhe_allowed s k a"
  shows "fhe_allowed (snd (exec (e, c) s)) k a"
  using exec_shape [of e c s]
proof (elim disjE exE conjE)
  fix err assume "exec (e, c) s = (Some err, s)"
  with assms show ?thesis by simp
next
  fix h k' p n s'
  assume l: "listEncryptedImage e h k' p s = Inr (n, s')" and x: "exec (e, c) s = (None, s')"
  from list_Inr [OF l] assms have "fhe_allowed s' k a" by auto
  with x show ?thesis by simp
next
  fix i s'
  assume l: "purchaseImage e i s = Inr s'" and x: "exec (e, c) s = (None, s')"
  from purchase_Inr [OF l] assms have "fhe_allowed s' k a" by auto
  with x show ?thesis by simp
next
  fix i b s'
  assume l: "grantAccess e i b s = Inr s'" and x: "exec (e, c) s = (None, s')"
  from grant_Inr [OF l] assms have "fhe_allowed s' k a" by auto
  with x show ?thesis by simp
qed

lemma allowed_run: "fhe_allowed s k a \<Longrightarrow> fhe_allowed (run ts s) k a"
proof (induction ts arbitrary: s)
  case Nil
  then show ?case by simp
next
  case (Cons t ts)
  obtain e c where t: "t = (e, c)" by (cases t)
  from Cons.prems have "fhe_allowed (snd (exec (e, c) s)) k a" by (rule allowed_exec)
  with Cons.IH t show ?case by simp
qed

lemma image_kept_exec:
  assumes "no_image_above s" and "creator (images s i) \<noteq> 0"
  shows "images (snd (exec (e, c) s)) i = images s i"
  using exec_shape [of e c s]
proof (elim disjE exE conjE)
  fix err assume "exec (e, c) s = (Some err, s)"
  then show ?thesis by simp
next
  fix h k p n s'
  assume l: "listEncryptedImage e h k p s = Inr (n, s')" and x: "exec (e, c) s = (None, s')"
  from assms have "i \<le> nextImageId s"
    by (auto simp: no_image_above_def not_less [symmetric])
  with list_Inr [OF l] have "images s' i = images s i" by auto
  with x show ?thesis by simp
next
  fix j s'
  assume "purchaseImage e j s = Inr s'" and "exec (e, c) s = (None, s')"
  then show ?thesis by (simp add: purchase_frame)
next
  fix j b s'
  assume "grantAccess e j b s = Inr s'" and "exec (e, c) s = (None, s')"
  then show ?thesis by (simp add: grant_frame)
qed

lemma image_kept_run:
  "no_image_above s \<Longrightarrow> creator (images s i) \<noteq> 0 \<Longrightarrow> images (run ts s) i = images s i"
proof (induction ts arbitrary: s)
  case Nil
  then show ?case by simp
next
  case (Cons t ts)
  obtain e c where t: "t = (e, c)" by (cases t)
  have k: "images (snd (exec (e, c) s)) i = images s i"
    using Cons.prems by (rule image_kept_exec)
  have "images (run ts (snd (exec (e, c) s))) i = images (snd (exec (e, c) s)) i"
  proof (rule Cons.IH)
    show "no_image_above (snd (exec (e, c) s))"
      using Cons.prems(1) by (rule no_image_above_exec)
    show "creator (images (snd (exec (e, c) s)) i) \<noteq> 0"
      unfolding k by (rule Cons.prems(2))
  qed
  with k t show ?case by simp
qed

lemma purchased_exec:
  assumes "hasPurchased_store s i a"
  shows "hasPurchased_store (snd (exec (e, c) s)) i a"
  using exec_shape [of e c s]
proof (elim disjE exE conjE)
  fix err assume "exec (e, c) s = (Some err, s)"
  with assms show ?thesis by simp
next
  fix h k p n s'
  assume l: "listEncryptedImage e h k p s = Inr (n, s')" and x: "exec (e, c) s = (None, s')"
  from list_Inr [OF l] assms have "hasPurchased_store s' i a" by auto
  with x show ?thesis by simp
next
  fix j s'
  assume l: "purchaseImage e j s = Inr s'" and x: "exec (e, c) s = (None, s')"
  from purchase_Inr [OF l] assms have "hasPurchased_store s' i a" by auto
  with x show ?thesis by simp
next
  fix j b s'
  assume l: "grantAccess e j b s = Inr s'" and x: "exec (e, c) s = (None, s')"
  from grant_Inr [OF l] assms have "hasPurchased_store s' i a" by auto
  with x show ?thesis by simp
qed

lemma purchased_run: "hasPurchased_store s i a \<Longrightarrow> hasPurchased_store (run ts s) i a"
proof (induction ts arbitrary: s)
  case Nil
  then show ?case by simp
next
  case (Cons t ts)
  obtain e c where t: "t = (e, c)" by (cases t)
  from Cons.prems have "hasPurchased_store (snd (exec (e, c) s)) i a" by (rule purchased_exec)
  with Cons.IH t show ?case by simp
qed

subsection \<open>Granting access\<close>

text \<open>
  C1, as the code has it. \<open>grantAccess\<close> writes the FHE access list and nothing else: after
  a successful call the account is allowed on the image's sealed key, and \<open>hasPurchased\<close>
  answers every query as it did before the call, so for the granted account it returns
  true exactly when that account is the creator or has purchased the image.
\<close>

theorem grantAccess_effect:
  assumes "grantAccess e i p s = Inr s'"
  shows "fhe_allowed s' (encryptedKey (images s' i)) p \<and>
         (\<forall>j q. hasPurchased j q s' = hasPurchased j q s) \<and>
         hasPurchased i p s' = Inr (p = creator (images s i) \<or> hasPurchased_store s i p)"
  using grant_Inr [OF assms] by (auto simp: hasPurchased_def Let_def)

text \<open>
  The scenario: account 1 grants account 3 access to image 1. Account 3 is then on the
  access list of the key, and \<open>hasPurchased\<close> still answers false for it.
\<close>

theorem grantAccess_effect_witness:
  "(let s' = snd (exec (sample_env 1 0 True, GrantAccess 1 3) listed1) in
      fhe_allowed s' (encryptedKey (images s' 1)) 3 \<and>
      hasPurchased 1 3 s' = Inr False)"
proof -
  have "fst (exec (sample_env 1 0 True, GrantAccess 1 3) listed1) = None"
    by (simp add: scenario_defs)
  then have h: "grantAccess (sample_env 1 0 True) 1 3 listed1 =
      Inr (snd (exec (sample_env 1 0 True, GrantAccess 1 3) listed1))"
    by (simp split: sum.splits)
  have c: "creator (images listed1 1) = 1" "\<not> hasPurchased_store listed1 1 3"
    "hasPurchased 1 3 listed1 = Inr False"
    by (simp_all add: scenario_defs)
  show ?thesis using grantAccess_effect [OF h] c by (simp add: Let_def del: exec.simps)
qed

text \<open>
  C1 as stated fails there: the grant succeeds and \<open>hasPurchased(1, 3)\<close> returns false.
\<close>

theorem grant_not_reported_counterexample:
  "(case grantAccess (sample_env 1 0 True) 1 3 listed1 of
      Inl err \<Rightarrow> False
    | Inr s' \<Rightarrow> hasPurchased 1 3 s' = Inr False)"
  by (simp add: scenario_defs)

subsection \<open>Purchasing\<close>

text \<open>
  C3. After a successful purchase, a further purchase of the same image by the same
  sender reverts with "Already purchased", whatever value it carries and whatever the
  payout would do, and the reverted call leaves the whole state, so the purchase flags
  and the access list too, as it was.
\<close>

theorem double_purchase_rejected:
  assumes "exec (e, PurchaseImage i) s = (None, s')"
      and "msg_sender e' = msg_sender e"
  shows "exec (e', PurchaseImage i) s' = (Some Already_purchased, s')"
proof -
  from assms(1) have p: "purchaseImage e i s = Inr s'"
    by (auto split: sum.splits)
  note q = purchase_Inr [OF p]
  from q have "creator (images s' i) = creator (images s i)" by simp
  moreover from q have "hasPurchased_store s' i (msg_sender e)" by simp
  ultimately have "purchaseImage e' i s' = Inl Already_purchased"
    using q assms(2) by (simp add: purchaseImage_def Let_def)
  then show ?thesis by simp
qed

text \<open>
  The scenario: account 2 buys image 1 twice.
\<close>

theorem double_purchase_rejected_witness:
  "exec (sample_env 2 ACCESS_PRICE True, PurchaseImage 1)
     (snd (exec (sample_env 2 ACCESS_PRICE True, PurchaseImage 1) listed1)) =
   (Some Already_purchased, snd (exec (sample_env 2 ACCESS_PRICE True, PurchaseImage 1) listed1))"
proof -
  have "fst (exec (sample_env 2 ACCESS_PRICE True, PurchaseImage 1) listed1) = None"
    by (simp add: scenario_defs)
  then have h: "exec (sample_env 2 ACCESS_PRICE True, PurchaseImage 1) listed1 =
      (None, snd (exec (sample_env 2 ACCESS_PRICE True, PurchaseImage 1) listed1))"
    by (simp add: prod_eq_iff)
  show ?thesis by (rule double_purchase_rejected [OF h refl])
qed



text \<open>
  C7, as the code has it. For an existing image and a sender who is not its creator, a
  purchase whose value differs from \<open>ACCESS_PRICE\<close> reverts with "Incorrect price" when
  the sender has not purchased the image yet, and with "Already purchased" when the sender
  has: the contract checks the purchase flag before the price.
\<close>

theorem price_exactness:
  assumes "creator (images s i) \<noteq> 0"
      and "msg_sender e \<noteq> creator (images s i)"
      and "msg_value e \<noteq> ACCESS_PRICE"
  shows "purchaseImage e i s =
           Inl (if hasPurchased_store s i (msg_sender e) then Already_purchased
                else Incorrect_price)"
  using assms by (simp add: purchaseImage_def Let_def)

text \<open>
  The scenario: account 2, who has not bought image 1, offers one wei less and one wei
  more than the price.
\<close>

theorem price_exactness_witness:
  "purchaseImage (sample_env 2 (ACCESS_PRICE - 1) True) 1 listed1 = Inl Incorrect_price \<and>
   purchaseImage (sample_env 2 (ACCESS_PRICE + 1) True) 1 listed1 = Inl Incorrect_price"
proof -
  have a: "creator (images listed1 1) \<noteq> 0" by (simp add: scenario_defs)
  have b: "msg_sender (sample_env 2 (ACCESS_PRICE - 1) True) \<noteq> creator (images listed1 1)"
          "msg_sender (sample_env 2 (ACCESS_PRICE + 1) True) \<noteq> creator (images listed1 1)"
    by (simp_all add: scenario_defs)
  have c: "msg_value (sample_env 2 (ACCESS_PRICE - 1) True) \<noteq> ACCESS_PRICE"
          "msg_value (sample_env 2 (ACCESS_PRICE + 1) True) \<noteq> ACCESS_PRICE"
    by (simp_all add: scenario_defs)
  have d: "\<not> hasPurchased_store listed1 1 2" by (simp add: scenario_defs)
  show ?thesis
    using price_exactness [OF a b(1) c(1)] price_exactness [OF a b(2) c(2)] d
    by (simp add: sample_env_def)
qed

text \<open>
  C7 as stated fails for a sender who has already purchased: account 2 buys image 1,
  then offers one wei too much for it, and the call reverts with "Already purchased".
\<close>

theorem price_mismatch_counterexample:
  "creator (images (run [(sample_env 2 ACCESS_PRICE True, PurchaseImage 1)] listed1) 1) \<noteq> 0 \<and>
   msg_sender (sample_env 2 (ACCESS_PRICE + 1) True) \<noteq>
     creator (images (run [(sample_env 2 ACCESS_PRICE True, PurchaseImage 1)] listed1) 1) \<and>
   msg_value (sample_env 2 (ACCESS_PRICE + 1) True) \<noteq> ACCESS_PRICE \<and>
   purchaseImage (sample_env 2 (ACCESS_PRICE + 1) True) 1
     (run [(sample_env 2 ACCESS_PRICE True, PurchaseImage 1)] listed1) = Inl Already_purchased"
  by (simp add: scenario_defs)

subsection \<open>Monotonic authorization\<close>

text \<open>
  C8. Take a state the contract reaches from deployment and any further sequence of
  transactions, successful or reverted. An account for which \<open>hasPurchased\<close> returns true
  keeps that answer. No permission is removed either: a purchase flag that is set stays
  set, an entry of the FHE access list stays, a listed image keeps its creator and its
  sealed key, and so an account allowed on the sealed key of an image, be it the creator,
  a buyer or an account the creator granted access, stays allowed on the key of that
  image.
\<close>

theorem authorization_monotonic:
  "(hasPurchased i a (run ts deployed) = Inr True \<longrightarrow>
      hasPurchased i a (run (ts @ us) deployed) = Inr True) \<and>
   (hasPurchased_store (run ts deployed) i a \<longrightarrow>
      hasPurchased_store (run (ts @ us) deployed) i a) \<and>
   (fhe_allowed (run ts deployed) k a \<longrightarrow> fhe_allowed (run (ts @ us) deployed) k a) \<and>
   (creator (images (run ts deployed) i) \<noteq> 0 \<longrightarrow>
      images (run (ts @ us) deployed) i = images (run ts deployed) i) \<and>
   (creator (images (run ts deployed) i) \<noteq> 0 \<and>
    fhe_allowed (run ts deployed) (encryptedKey (images (run ts deployed) i)) a \<longrightarrow>
      fhe_allowed (run (ts @ us) deployed)
        (encryptedKey (images (run (ts @ us) deployed) i)) a)"
proof -
  let ?s = "run ts deployed"
  have inv: "no_image_above ?s"
    by (rule no_image_above_run [OF no_image_above_deployed])
  have r: "run (ts @ us) deployed = run us ?s" by (rule run_append)
  have 1: "hasPurchased i a ?s = Inr True \<longrightarrow> hasPurchased i a (run us ?s) = Inr True"
    using authorized_run [OF inv] by blast
  have 2: "hasPurchased_store ?s i a \<longrightarrow> hasPurchased_store (run us ?s) i a"
    using purchased_run by blast
  have 3: "fhe_allowed ?s k a \<longrightarrow> fhe_allowed (run us ?s) k a"
    using allowed_run by blast
  have 4: "creator (images ?s i) \<noteq> 0 \<longrightarrow> images (run us ?s) i = images ?s i"
    using image_kept_run [OF inv] by blast
  have 5: "creator (images ?s i) \<noteq> 0 \<and> fhe_allowed ?s (encryptedKey (images ?s i)) a \<longrightarrow>
      fhe_allowed (run us ?s) (encryptedKey (images (run us ?s) i)) a"
  proof
    assume h: "creator (images ?s i) \<noteq> 0 \<and> fhe_allowed ?s (encryptedKey (images ?s i)) a"
    then have "images (run us ?s) i = images ?s i"
      using image_kept_run [OF inv] by blast
    moreover from h have "fhe_allowed (run us ?s) (encryptedKey (images ?s i)) a"
      using allowed_run by blast
    ultimately show "fhe_allowed (run us ?s) (encryptedKey (images (run us ?s) i)) a"
      by simp
  qed
  show ?thesis unfolding r using 1 2 3 4 5 by (intro conjI) assumption+
qed

text \<open>
  The scenario: account 1 has listed image 1, account 2 has bought it and account 3 has
  been granted access to it; then a second image is listed, account 3 buys it and
  account 2 tries to buy image 1 again. Account 2 is still reported by \<open>hasPurchased\<close>,
  and account 3, which \<open>hasPurchased\<close> never reported, is still allowed on the key of
  image 1.
\<close>

theorem authorization_monotonic_witness:
  "hasPurchased 1 2 (run ([(sample_env 1 0 True, ListEncryptedImage ''h'' 5 [1]),
       (sample_env 2 ACCESS_PRICE True, PurchaseImage 1),
       (sample_env 1 0 True, GrantAccess 1 3)] @
      [(sample_env 1 0 True, ListEncryptedImage ''g'' 6 [1]),
       (sample_env 3 ACCESS_PRICE True, PurchaseImage 2),
       (sample_env 2 ACCESS_PRICE True, PurchaseImage 1)]) deployed) = Inr True \<and>
   fhe_allowed (run ([(sample_env 1 0 True, ListEncryptedImage ''h'' 5 [1]),
       (sample_env 2 ACCESS_PRICE True, PurchaseImage 1),
       (sample_env 1 0 True, GrantAccess 1 3)] @
      [(sample_env 1 0 True, ListEncryptedImage ''g'' 6 [1]),
       (sample_env 3 ACCESS_PRICE True, PurchaseImage 2),
       (sample_env 2 ACCESS_PRICE True, PurchaseImage 1)]) deployed)
     (encryptedKey (images (run ([(sample_env 1 0 True, ListEncryptedImage ''h'' 5 [1]),
       (sample_env 2 ACCESS_PRICE True, PurchaseImage 1),
       (sample_env 1 0 True, GrantAccess 1 3)] @
      [(sample_env 1 0 True, ListEncryptedImage ''g'' 6 [1]),
       (sample_env 3 ACCESS_PRICE True, PurchaseImage 2),
       (sample_env 2 ACCESS_PRICE True, PurchaseImage 1)]) deployed) 1)) 3"
proof -
  let ?ts = "[(sample_env 1 0 True, ListEncryptedImage ''h'' 5 [1]),
       (sample_env 2 ACCESS_PRICE True, PurchaseImage 1),
       (sample_env 1 0 True, GrantAccess 1 3)]"
  let ?us = "[(sample_env 1 0 True, ListEncryptedImage ''g'' 6 [1]),
       (sample_env 3 ACCESS_PRICE True, PurchaseImage 2),
       (sample_env 2 ACCESS_PRICE True, PurchaseImage 1)]"
  have h: "hasPurchased 1 2 (run ?ts deployed) = Inr True"
    by (simp add: scenario_defs)
  have g: "creator (images (run ?ts deployed) 1) \<noteq> 0 \<and>
      fhe_allowed (run ?ts deployed) (encryptedKey (images (run ?ts deployed) 1)) 3"
    by (simp add: scenario_defs)
  note t = authorization_monotonic [of 1 _ ?ts ?us]
  from t [of 2] h have a: "hasPurchased 1 2 (run (?ts @ ?us) deployed) = Inr True"
    by blast
  from t [of 3] g have b: "fhe_allowed (run (?ts @ ?us) deployed)
      (encryptedKey (images (run (?ts @ ?us) deployed) 1)) 3"
    by blast
  from a b show ?thesis by (rule conjI)
qed

subsection \<open>Listing and the image counter\<close>

text \<open>
  C9, as the code has it. Listing with an empty hash fails and changes nothing, with
  "Invalid hash" when the call carries no ether. Listing with a non-empty hash fails and
  changes nothing when the call carries ether, when \<open>FHE.fromExternal\<close> rejects the sealed
  key and its proof, and when the counter stands at the largest \<open>uint256\<close>. Otherwise,
  from a sender that is not the zero address, it succeeds: it returns the counter plus
  one, the counter becomes that id, the image stores the key that \<open>FHE.fromExternal\<close>
  returned, the creator and the contract are put on the FHE access list of that key, and
  \<open>hasPurchased\<close> is true for the creator at once. In every state reached from deployment
  the ids assigned so far are 1, 2, ... up to the counter, each once, so the next id is
  greater than all of them and \<open>getTotalImages\<close> is the number of images ever listed. No
  transaction lowers the counter.
\<close>

theorem list_behaviour:
  "(\<exists>err. exec (e, ListEncryptedImage [] k p) s = (Some err, s)) \<and>
   (msg_value e = 0 \<longrightarrow> exec (e, ListEncryptedImage [] k p) s = (Some Invalid_hash, s)) \<and>
   (msg_value e \<noteq> 0 \<longrightarrow>
      exec (e, ListEncryptedImage h k p) s = (Some Value_to_nonpayable, s)) \<and>
   (msg_value e = 0 \<and> h \<noteq> [] \<and> fromExternal e k p = None \<longrightarrow>
      exec (e, ListEncryptedImage h k p) s = (Some FHE_input_rejected, s)) \<and>
   (msg_value e = 0 \<and> h \<noteq> [] \<and> fromExternal e k p = Some sk \<and>
      getTotalImages s = uint256_max \<longrightarrow>
      exec (e, ListEncryptedImage h k p) s = (Some Panic_overflow, s)) \<and>
   (msg_value e = 0 \<and> h \<noteq> [] \<and> fromExternal e k p = Some sk \<and> msg_sender e \<noteq> 0 \<and>
      getTotalImages s < uint256_max \<longrightarrow>
      (\<exists>s'. listEncryptedImage e h k p s = Inr (getTotalImages s + 1, s') \<and>
            getTotalImages s' = getTotalImages s + 1 \<and>
            hasPurchased (getTotalImages s + 1) (msg_sender e) s' = Inr True \<and>
            encryptedKey (images s' (getTotalImages s + 1)) = sk \<and>
            fhe_allowed s' sk (msg_sender e) \<and> fhe_allowed s' sk (this e))) \<and>
   listed_ids (events (run ts deployed)) = [1 ..< Suc (getTotalImages (run ts deployed))] \<and>
   (\<forall>j \<in> set (listed_ids (events (run ts deployed))).
      j < getTotalImages (run ts deployed) + 1) \<and>
   getTotalImages (run ts deployed) = length (listed_ids (events (run ts deployed))) \<and>
   getTotalImages s \<le> getTotalImages (snd (exec (e, c) s))"
proof (intro conjI impI)
  show "\<exists>err. exec (e, ListEncryptedImage [] k p) s = (Some err, s)"
    using list_reverts(1) [of e "[]" k p s] list_reverts(2) [of e k p s] by blast
next
  assume "msg_value e = 0"
  then show "exec (e, ListEncryptedImage [] k p) s = (Some Invalid_hash, s)"
    by (rule list_reverts(2))
next
  assume "msg_value e \<noteq> 0"
  then show "exec (e, ListEncryptedImage h k p) s = (Some Value_to_nonpayable, s)"
    by (rule list_reverts(1))
next
  assume "msg_value e = 0 \<and> h \<noteq> [] \<and> fromExternal e k p = None"
  then show "exec (e, ListEncryptedImage h k p) s = (Some FHE_input_rejected, s)"
    using list_reverts(3) [of e h k p s] by blast
next
  assume "msg_value e = 0 \<and> h \<noteq> [] \<and> fromExternal e k p = Some sk \<and>
      getTotalImages s = uint256_max"
  then show "exec (e, ListEncryptedImage h k p) s = (Some Panic_overflow, s)"
    unfolding getTotalImages_def
    using list_reverts(4) [of e h k p sk s] by blast
next
  assume "msg_value e = 0 \<and> h \<noteq> [] \<and> fromExternal e k p = Some sk \<and> msg_sender e \<noteq> 0 \<and>
      getTotalImages s < uint256_max"
  then show "\<exists>s'. listEncryptedImage e h k p s = Inr (getTotalImages s + 1, s') \<and>
            getTotalImages s' = getTotalImages s + 1 \<and>
            hasPurchased (getTotalImages s + 1) (msg_sender e) s' = Inr True \<and>
            encryptedKey (images s' (getTotalImages s + 1)) = sk \<and>
            fhe_allowed s' sk (msg_sender e) \<and> fhe_allowed s' sk (this e)"
    unfolding getTotalImages_def
    using list_succeeds [of e h k p sk s] by blast
next
  show "listed_ids (events (run ts deployed)) = [1 ..< Suc (getTotalImages (run ts deployed))]"
    unfolding getTotalImages_def by (rule log_of_run)
next
  show "\<forall>j \<in> set (listed_ids (events (run ts deployed))).
      j < getTotalImages (run ts deployed) + 1"
    unfolding getTotalImages_def log_of_run by auto
next
  show "getTotalImages (run ts deployed) = length (listed_ids (events (run ts deployed)))"
    unfolding getTotalImages_def log_of_run by simp
next
  show "getTotalImages s \<le> getTotalImages (snd (exec (e, c) s))"
    unfolding getTotalImages_def by (rule count_exec)
qed

text \<open>
  The scenario, on the fresh contract: an empty hash is refused; a listing that carries
  7 wei is refused; the first listing gets id 1, stores the key 5, puts its creator on
  the access list of that key and authorizes the creator; and the counter after it is the
  number of listings in the log.
\<close>

theorem list_behaviour_witness:
  "exec (sample_env 1 0 True, ListEncryptedImage [] 5 [1]) deployed =
     (Some Invalid_hash, deployed) \<and>
   exec (sample_env 1 7 True, ListEncryptedImage ''h'' 5 [1]) deployed =
     (Some Value_to_nonpayable, deployed) \<and>
   (\<exists>s'. listEncryptedImage (sample_env 1 0 True) ''h'' 5 [1] deployed = Inr (1, s') \<and>
         getTotalImages s' = 1 \<and> hasPurchased 1 1 s' = Inr True \<and>
         encryptedKey (images s' 1) = 5 \<and> fhe_allowed s' 5 1 \<and> fhe_allowed s' 5 99) \<and>
   getTotalImages listed1 = length (listed_ids (events listed1))"
proof -
  have hyp: "msg_value (sample_env 1 0 True) = 0 \<and> ''h'' \<noteq> [] \<and>
      fromExternal (sample_env 1 0 True) 5 [1] = Some 5 \<and>
      msg_sender (sample_env 1 0 True) \<noteq> 0 \<and> getTotalImages deployed < uint256_max"
    by (simp add: sample_env_def getTotalImages_def deployed_def uint256_max_def)
  have v: "msg_value (sample_env 1 0 True) = 0" "msg_value (sample_env 1 7 True) \<noteq> 0"
    by (simp_all add: sample_env_def)
  have z: "getTotalImages deployed = 0" "msg_sender (sample_env 1 0 True) = 1"
    "this (sample_env 1 0 True) = 99"
    by (simp_all add: sample_env_def getTotalImages_def deployed_def)
  note t = list_behaviour [of "sample_env 1 0 True" 5 "[1]" deployed "''h''" 5
      "[(sample_env 1 0 True, ListEncryptedImage ''h'' 5 [1])]" "PurchaseImage 1"]
  note u = list_behaviour [of "sample_env 1 7 True" 5 "[1]" deployed "''h''" 5
      "[]" "PurchaseImage 1"]
  from t v(1) have a: "exec (sample_env 1 0 True, ListEncryptedImage [] 5 [1]) deployed =
      (Some Invalid_hash, deployed)" by blast
  from u v(2) have n: "exec (sample_env 1 7 True, ListEncryptedImage ''h'' 5 [1]) deployed =
      (Some Value_to_nonpayable, deployed)" by blast
  from t hyp have b: "\<exists>s'. listEncryptedImage (sample_env 1 0 True) ''h'' 5 [1] deployed =
        Inr (getTotalImages deployed + 1, s') \<and>
      getTotalImages s' = getTotalImages deployed + 1 \<and>
      hasPurchased (getTotalImages deployed + 1) (msg_sender (sample_env 1 0 True)) s' =
        Inr True \<and>
      encryptedKey (images s' (getTotalImages deployed + 1)) = 5 \<and>
      fhe_allowed s' 5 (msg_sender (sample_env 1 0 True)) \<and>
      fhe_allowed s' 5 (this (sample_env 1 0 True))"
    by blast
  from t have c: "getTotalImages listed1 = length (listed_ids (events listed1))"
    unfolding listed1_def by blast
  from a n b c show ?thesis by (simp only: z add_0 simp_thms)
qed

text \<open>
  C9 as stated fails for a listing with a non-empty hash whose sealed key and proof
  \<open>FHE.fromExternal\<close> rejects: account 1 lists the hash \<open>h\<close> with an empty proof on the
  fresh contract, the call reverts and nothing is listed.
\<close>

theorem list_rejected_counterexample:
  "''h'' \<noteq> [] \<and>
   exec (sample_env 1 0 True, ListEncryptedImage ''h'' 5 []) deployed =
     (Some FHE_input_rejected, deployed) \<and>
   getTotalImages (snd (exec (sample_env 1 0 True, ListEncryptedImage ''h'' 5 []) deployed)) = 0"
  by (simp add: listEncryptedImage_def sample_env_def getTotalImages_def deployed_def)

text \<open>
  C10. The first id is 1. In every state reached from deployment by transactions whose
  senders are not the zero address, an image is stored (its creator is not zero) exactly
  at the ids from 1 to \<open>getTotalImages\<close>; outside that range \<open>getImage\<close>,
  \<open>hasPurchased\<close> and \<open>purchaseImage\<close> all revert with "Image missing", and inside it
  none of them does.
\<close>

theorem existence_range:
  assumes "\<forall>t\<in>set ts. msg_sender (fst t) \<noteq> 0"
  shows "(\<forall>n s'. listEncryptedImage e h k p deployed = Inr (n, s') \<longrightarrow> n = 1) \<and>
         (\<forall>i. (creator (images (run ts deployed) i) \<noteq> 0) =
                (1 \<le> i \<and> i \<le> getTotalImages (run ts deployed))) \<and>
         (\<forall>i. \<not> (1 \<le> i \<and> i \<le> getTotalImages (run ts deployed)) \<longrightarrow>
            getImage i (run ts deployed) = Inl Image_missing \<and>
            (\<forall>a. hasPurchased i a (run ts deployed) = Inl Image_missing) \<and>
            (\<forall>e'. purchaseImage e' i (run ts deployed) = Inl Image_missing)) \<and>
         (\<forall>i. 1 \<le> i \<and> i \<le> getTotalImages (run ts deployed) \<longrightarrow>
            getImage i (run ts deployed) \<noteq> Inl Image_missing \<and>
            (\<forall>a. hasPurchased i a (run ts deployed) \<noteq> Inl Image_missing) \<and>
            (\<forall>e'. purchaseImage e' i (run ts deployed) \<noteq> Inl Image_missing))"
proof -
  have "ids_exact (run ts deployed)"
    using ids_exact_run [OF ids_exact_deployed assms] .
  then have r: "(creator (images (run ts deployed) i) = 0) =
                (\<not> (1 \<le> i \<and> i \<le> nextImageId (run ts deployed)))" for i
    unfolding ids_exact_def by blast
  have one: "\<forall>n s'. listEncryptedImage e h k p deployed = Inr (n, s') \<longrightarrow> n = 1"
  proof (intro allI impI)
    fix n s' assume "listEncryptedImage e h k p deployed = Inr (n, s')"
    from list_frame(1) [OF this] show "n = 1" by (simp add: deployed_def)
  qed
  show ?thesis
    unfolding getTotalImages_def missing_iff r
    using one by blast
qed

text \<open>
  The scenario: one image listed and bought. Ids 0 and 2 are missing, id 1 is not.
\<close>

theorem existence_range_witness:
  "getImage 0 (run [(sample_env 2 ACCESS_PRICE True, PurchaseImage 1)] listed1) = Inl Image_missing \<and>
   hasPurchased 2 1 (run [(sample_env 2 ACCESS_PRICE True, PurchaseImage 1)] listed1) =
     Inl Image_missing \<and>
   purchaseImage (sample_env 3 ACCESS_PRICE True) 2
     (run [(sample_env 2 ACCESS_PRICE True, PurchaseImage 1)] listed1) = Inl Image_missing \<and>
   getImage 1 (run [(sample_env 2 ACCESS_PRICE True, PurchaseImage 1)] listed1) \<noteq> Inl Image_missing"
proof -
  let ?ts = "[(sample_env 1 0 True, ListEncryptedImage ''h'' 5 [1]),
              (sample_env 2 ACCESS_PRICE True, PurchaseImage 1)]"
  have hyp: "\<forall>t\<in>set ?ts. msg_sender (fst t) \<noteq> 0"
    by (simp add: sample_env_def)
  have n: "getTotalImages (run ?ts deployed) = 1"
    by (simp add: scenario_defs)
  have s: "run [(sample_env 2 ACCESS_PRICE True, PurchaseImage 1)] listed1 = run ?ts deployed"
    by (simp add: listed1_def)
  note t = existence_range [OF hyp, of "sample_env 1 0 True" "''h''" 5 "[1]"]
  from t have out: "\<forall>i. \<not> (1 \<le> i \<and> i \<le> getTotalImages (run ?ts deployed)) \<longrightarrow>
            getImage i (run ?ts deployed) = Inl Image_missing \<and>
            (\<forall>a. hasPurchased i a (run ?ts deployed) = Inl Image_missing) \<and>
            (\<forall>e'. purchaseImage e' i (run ?ts deployed) = Inl Image_missing)"
    by blast
  from t have inn: "\<forall>i. 1 \<le> i \<and> i \<le> getTotalImages (run ?ts deployed) \<longrightarrow>
            getImage i (run ?ts deployed) \<noteq> Inl Image_missing"
    by blast
  from out [rule_format, of 0] n
  have a: "getImage 0 (run ?ts deployed) = Inl Image_missing" by simp
  from out [rule_format, of 2] n
  have b: "hasPurchased 2 1 (run ?ts deployed) = Inl Image_missing"
    "purchaseImage (sample_env 3 ACCESS_PRICE True) 2 (run ?ts deployed) = Inl Image_missing"
    by simp_all
  from inn [rule_format, of 1] n
  have c: "getImage 1 (run ?ts deployed) \<noteq> Inl Image_missing" by simp
  from a b c show ?thesis unfolding s by blast
qed

section \<open>Properties of the cipher and of the content key\<close>

subsection \<open>Hexadecimal strings\<close>

lemma hexDigitValue_less: "hexDigitValue c = Some v \<Longrightarrow> v < 16"
  by (auto simp: hexDigitValue_def Let_def split: if_splits)

lemma isHex_not_space: "isHex c \<Longrightarrow> \<not> isStrWhiteSpace c"
  by (auto simp: isHex_def hexDigitValue_def isStrWhiteSpace_def Let_def split: if_splits)

lemma isHex_not_special:
  "isHex c \<Longrightarrow> c \<noteq> CHR ''-'' \<and> c \<noteq> CHR ''+'' \<and> c \<noteq> CHR ''x'' \<and> c \<noteq> CHR ''X''"
  by (auto simp: isHex_def hexDigitValue_def Let_def)

lemma hexDigitValue_hexChar: "d < 16 \<Longrightarrow> hexDigitValue (hexChar d) = Some d"
proof -
  assume "d < 16"
  then have "d \<in> {0, 1, 2, 3, 4, 5, 6, 7, 8, 9, 10, 11, 12, 13, 14, 15}" by simp arith
  then show ?thesis
    by (elim insertE emptyE) (simp_all add: hexChar_def hexDigitValue_def)
qed

lemma isHex_hexChar: "d < 16 \<Longrightarrow> isHex (hexChar d)"
  by (simp add: isHex_def hexDigitValue_hexChar)

lemma parseInt16_pair:
  assumes "isHex a" and "isHex b"
  shows "parseInt16 [a, b] = Some (int (hexValue [a, b]))"
  using assms isHex_not_space [OF assms(1)] isHex_not_special [OF assms(1)]
    isHex_not_special [OF assms(2)]
  by (simp add: parseInt16_def isHex_def)

lemma hexValue_snoc:
  "hexValue (ds @ [c]) = 16 * hexValue ds + (case hexDigitValue c of Some d \<Rightarrow> d | None \<Rightarrow> 0)"
  by (simp add: hexValue_def)

lemma hexValue_pair_less:
  assumes "isHex a" and "isHex b"
  shows "hexValue [a, b] < 256"
proof -
  from assms obtain x y where "hexDigitValue a = Some x" "hexDigitValue b = Some y"
    by (auto simp: isHex_def)
  moreover from this have "x < 16" "y < 16" by (auto dest: hexDigitValue_less)
  ultimately show ?thesis by (simp add: hexValue_def)
qed

lemma unat_toUint8:
  "n < 256 \<Longrightarrow> unat (toUint8 (Some (int n))) = n"
  by (simp add: toUint8_def unat_of_nat)

lemma foldl_bytes_hex:
  assumes "\<forall>c \<in> set ds. isHex c" and "even (length ds)"
  shows "foldl (\<lambda>a b. 256 * a + unat b) acc (hexToBytes_loop ds) =
         foldl (\<lambda>a c. 16 * a + (case hexDigitValue c of Some d \<Rightarrow> d | None \<Rightarrow> 0)) acc ds"
  using assms
proof (induction ds arbitrary: acc rule: hexToBytes_loop.induct)
  case (1 a b rest)
  then have h: "isHex a" "isHex b" by simp_all
  have u: "unat (toUint8 (parseInt16 [a, b])) = hexValue [a, b]"
    using parseInt16_pair [OF h] hexValue_pair_less [OF h] by (simp add: unat_toUint8)
  have "foldl (\<lambda>a b. 256 * a + unat b) acc (hexToBytes_loop (a # b # rest)) =
        foldl (\<lambda>a b. 256 * a + unat b) (256 * acc + hexValue [a, b]) (hexToBytes_loop rest)"
    by (simp add: u)
  also have "\<dots> = foldl (\<lambda>a c. 16 * a + (case hexDigitValue c of Some d \<Rightarrow> d | None \<Rightarrow> 0))
        (256 * acc + hexValue [a, b]) rest"
    using 1 by simp
  also have "\<dots> = foldl (\<lambda>a c. 16 * a + (case hexDigitValue c of Some d \<Rightarrow> d | None \<Rightarrow> 0))
        acc (a # b # rest)"
    by (simp add: hexValue_def algebra_simps)
  finally show ?case .
next
  case (2 a)
  then show ?case by simp
next
  case 3
  then show ?case by simp
qed

lemma length_hexToBytes_loop: "even (length ds) \<Longrightarrow> length (hexToBytes_loop ds) = length ds div 2"
  by (induction ds rule: hexToBytes_loop.induct) simp_all

lemma bigEndian_hexToBytes_loop:
  "\<forall>c \<in> set ds. isHex c \<Longrightarrow> even (length ds) \<Longrightarrow> bigEndian (hexToBytes_loop ds) = hexValue ds"
  by (simp add: bigEndian_def hexValue_def foldl_bytes_hex)

declare BigInt_toString16.simps [simp del]

lemma toString16_hex: "\<forall>c \<in> set (BigInt_toString16 n). isHex c"
proof (induction n rule: BigInt_toString16.induct)
  case (1 n)
  show ?case
  proof (cases "n < 16")
    case True
    then show ?thesis by (simp add: BigInt_toString16.simps [of n] isHex_hexChar)
  next
    case False
    with 1 show ?thesis by (simp add: BigInt_toString16.simps [of n] isHex_hexChar)
  qed
qed

lemma toString16_value: "hexValue (BigInt_toString16 n) = n"
proof (induction n rule: BigInt_toString16.induct)
  case (1 n)
  show ?case
  proof (cases "n < 16")
    case True
    then show ?thesis
      by (simp add: BigInt_toString16.simps [of n] hexValue_def hexDigitValue_hexChar)
  next
    case False
    with 1 have "hexValue (BigInt_toString16 (n div 16)) = n div 16" by simp
    with False show ?thesis
      by (simp add: BigInt_toString16.simps [of n] hexValue_snoc hexDigitValue_hexChar)
  qed
qed

lemma toString16_length: "n < 16 ^ k \<Longrightarrow> 0 < k \<Longrightarrow> length (BigInt_toString16 n) \<le> k"
proof (induction n arbitrary: k rule: BigInt_toString16.induct)
  case (1 n)
  show ?case
  proof (cases "n < 16")
    case True
    with "1.prems" show ?thesis by (simp add: BigInt_toString16.simps [of n])
  next
    case False
    with "1.prems" obtain j where k: "k = Suc j" by (cases k) auto
    with False "1.prems" have j: "0 < j" by (cases j) auto
    from k "1.prems" have "n div 16 < 16 ^ j"
      by (simp add: less_mult_imp_div_less mult.commute)
    from "1.IH" [OF False this j] k False show ?thesis
      by (simp add: BigInt_toString16.simps [of n])
  qed
qed

lemma hexValue_zeros: "hexValue (replicate m CHR ''0'' @ ds) = hexValue ds"
proof -
  have "foldl (\<lambda>a c. 16 * a + (case hexDigitValue c of Some d \<Rightarrow> d | None \<Rightarrow> 0)) 0
          (replicate m CHR ''0'') = 0"
    by (induction m) (simp_all add: hexDigitValue_def)
  then show ?thesis by (simp add: hexValue_def)
qed

lemma concat_replicate_single: "concat (replicate m [c]) = replicate m c"
  by (induction m) simp_all

lemma padStart_zero:
  "padStart k ''0'' s = replicate (k - length s) CHR ''0'' @ s"
  by (simp add: padStart_def concat_replicate_single)

lemma hexToBytes_0x:
  "hexToBytes (''0x'' @ ds) =
     (if length ds mod 2 \<noteq> 0 then Inl Invalid_hex_string else Inr (hexToBytes_loop ds))"
  by (simp add: hexToBytes_def)

lemma sample_key_bytes:
  "importAesKey sample_key =
     Inr [0, 1, 2, 3, 4, 5, 6, 7, 8, 9, 10, 11, 12, 13, 14, 15, 16, 17, 18, 19, 20, 21, 22, 23,
          24, 25, 26, 27, 28, 29, 30, 31]"
  by (simp add: sample_key_def importAesKey_def hexToBytes_def parseInt16_def toUint8_def
      hexValue_def hexDigitValue_def isStrWhiteSpace_def)

lemma payload_layout:
  "Uint8Array_set (Uint8Array_set (replicate (length iv + length c) 0) iv 0) c (length iv) = iv @ c"
  by (simp add: Uint8Array_set_def)

subsection \<open>Encryption and decryption\<close>

text \<open>
  C2. Let the browser's cipher decrypt, under a 32-octet key and a 12-octet nonce, what
  it encrypted under them, and let its output never be empty (AES-GCM appends its tag).
  Then for every plaintext, every key string that imports as a 256-bit key and every
  nonce drawn, \<open>encryptContent\<close> returns the nonce followed by the cipher's output, and
  \<open>decryptContent\<close> of that package under the same key string returns the plaintext.
\<close>

theorem encrypt_decrypt_roundtrip:
  assumes "\<And>key iv plain. length key = 32 \<Longrightarrow> length iv = AES_IV_LENGTH \<Longrightarrow>
             gcm_decrypt key iv (gcm_encrypt key iv plain) = Some plain"
      and "\<And>key iv plain. length key = 32 \<Longrightarrow> length iv = AES_IV_LENGTH \<Longrightarrow>
             gcm_encrypt key iv plain \<noteq> []"
      and "importAesKey keyHex = Inr key"
      and "length iv = AES_IV_LENGTH"
  shows "encryptContent gcm_encrypt iv plain keyHex = Inr (iv @ gcm_encrypt key iv plain) \<and>
         decryptContent gcm_decrypt (iv @ gcm_encrypt key iv plain) keyHex = Inr plain"
proof
  show "encryptContent gcm_encrypt iv plain keyHex = Inr (iv @ gcm_encrypt key iv plain)"
    by (simp add: encryptContent_def assms(3) Let_def payload_layout)
next
  from assms(3) have k: "length key = 32"
    by (auto simp: importAesKey_def split: sum.splits if_splits)
  have n: "\<not> length (iv @ gcm_encrypt key iv plain) \<le> AES_IV_LENGTH"
    using assms(2) [OF k assms(4), of plain] assms(4) by simp
  have s: "take AES_IV_LENGTH (iv @ gcm_encrypt key iv plain) = iv"
          "drop AES_IV_LENGTH (iv @ gcm_encrypt key iv plain) = gcm_encrypt key iv plain"
    using assms(4) by simp_all
  show "decryptContent gcm_decrypt (iv @ gcm_encrypt key iv plain) keyHex = Inr plain"
    unfolding decryptContent_def
    by (simp only: n s if_False Let_def assms(3) sum.case assms(1) [OF k assms(4)] option.case)
qed

text \<open>
  The worked cipher on the empty plaintext: the package is the nonce and the sixteen
  octets of the tag, long enough to pass the length check, and decrypts to the empty
  plaintext.
\<close>

theorem encrypt_decrypt_roundtrip_witness:
  "encryptContent sample_gcm_encrypt sample_iv [] sample_key =
     Inr (sample_iv @ [0, 1, 2, 3, 4, 5, 6, 7, 8, 9, 10, 11, 12, 13, 14, 15]) \<and>
   decryptContent sample_gcm_decrypt
     (sample_iv @ [0, 1, 2, 3, 4, 5, 6, 7, 8, 9, 10, 11, 12, 13, 14, 15]) sample_key = Inr []"
proof -
  have a: "\<And>key iv plain. length key = 32 \<Longrightarrow> length iv = AES_IV_LENGTH \<Longrightarrow>
      sample_gcm_decrypt key iv (sample_gcm_encrypt key iv plain) = Some plain"
    by (simp add: sample_gcm_decrypt_def sample_gcm_encrypt_def AES_IV_LENGTH_def)
  have b: "\<And>key iv plain. length key = 32 \<Longrightarrow> length iv = AES_IV_LENGTH \<Longrightarrow>
      sample_gcm_encrypt key iv plain \<noteq> []"
    by (auto simp: sample_gcm_encrypt_def)
  have c: "length sample_iv = AES_IV_LENGTH"
    by (simp add: sample_iv_def AES_IV_LENGTH_def)
  have d: "sample_gcm_encrypt [0, 1, 2, 3, 4, 5, 6, 7, 8, 9, 10, 11, 12, 13, 14, 15, 16, 17, 18,
      19, 20, 21, 22, 23, 24, 25, 26, 27, 28, 29, 30, 31] sample_iv [] =
      [0, 1, 2, 3, 4, 5, 6, 7, 8, 9, 10, 11, 12, 13, 14, 15]"
    by (simp add: sample_gcm_encrypt_def)
  let ?key = "[0, 1, 2, 3, 4, 5, 6, 7, 8, 9, 10, 11, 12, 13, 14, 15, 16, 17, 18,
      19, 20, 21, 22, 23, 24, 25, 26, 27, 28, 29, 30, 31] :: bytes"
  have "encryptContent sample_gcm_encrypt sample_iv [] sample_key =
          Inr (sample_iv @ sample_gcm_encrypt ?key sample_iv []) \<and>
        decryptContent sample_gcm_decrypt (sample_iv @ sample_gcm_encrypt ?key sample_iv [])
          sample_key = Inr []"
  proof (rule encrypt_decrypt_roundtrip [where gcm_decrypt = sample_gcm_decrypt
        and gcm_encrypt = sample_gcm_encrypt and keyHex = sample_key and key = ?key
        and iv = sample_iv and plain = "[]"])
    fix key iv plain
    assume "length (key :: bytes) = 32" and "length (iv :: bytes) = AES_IV_LENGTH"
    then show "sample_gcm_decrypt key iv (sample_gcm_encrypt key iv plain) = Some plain"
      by (rule a)
  next
    fix key iv plain
    assume "length (key :: bytes) = 32" and "length (iv :: bytes) = AES_IV_LENGTH"
    then show "sample_gcm_encrypt key iv plain \<noteq> []"
      by (rule b)
  next
    show "importAesKey sample_key = Inr ?key" by (rule sample_key_bytes)
  next
    show "length sample_iv = AES_IV_LENGTH" by (rule c)
  qed
  then show ?thesis by (simp only: d)
qed

text \<open>
  C6, as the code has it. \<open>decryptContent\<close> fails with "Encrypted payload too short"
  exactly when the package has at most \<open>AES_IV_LENGTH\<close> = 12 octets, whatever the key
  string and the cipher are: the check comes before the key is imported and before the
  cipher runs. A longer package, also one of 13 to 27 octets, passes the check.
\<close>

theorem short_payload_rejected:
  "(decryptContent gcm_decrypt payload keyHex = Inl Payload_too_short) =
     (length payload \<le> AES_IV_LENGTH)"
  by (auto simp: decryptContent_def importAesKey_def hexToBytes_def Let_def
      split: sum.splits option.splits if_splits)

text \<open>
  A package of exactly twelve octets is refused by the check.
\<close>

theorem short_payload_rejected_witness:
  "decryptContent sample_gcm_decrypt (replicate 12 0) sample_key = Inl Payload_too_short"
  using short_payload_rejected [of sample_gcm_decrypt "replicate 12 0" sample_key]
  by (simp add: AES_IV_LENGTH_def)

text \<open>
  C6 as stated fails for a package of 13 octets, shorter than the nonce and a tag: it is
  split into a nonce and one octet of data and handed to the cipher under the imported
  key, and the failure is the cipher's.
\<close>

theorem short_payload_counterexample:
  "length (replicate 13 (0 :: 8 word)) < AES_IV_LENGTH + 16 \<and>
   decryptContent sample_gcm_decrypt (replicate 13 0) sample_key = Inl Operation_error"
  by (simp add: decryptContent_def sample_key_bytes sample_gcm_decrypt_def AES_IV_LENGTH_def)

subsection \<open>The content key\<close>

text \<open>
  C5, on the code. The key under which \<open>handleDecrypt\<close> decrypts the content is the
  unsealed secret itself, written as 32 octets, most significant first: no digest is
  applied, and reading the key as a number gives the secret back.
\<close>

theorem content_key_is_the_secret:
  assumes "secret < 2 ^ 256"
  shows "\<exists>key. importAesKey (handleDecrypt_keyHex secret) = Inr key \<and>
               length key = 32 \<and> bigEndian key = secret"
proof -
  let ?ds = "padStart 64 ''0'' (BigInt_toString16 secret)"
  have "(2::nat) ^ 256 = 16 ^ 64" by simp
  with assms have "secret < 16 ^ 64" by simp
  then have len: "length (BigInt_toString16 secret) \<le> 64"
    by (rule toString16_length) simp
  then have l64: "length ?ds = 64" by (simp add: padStart_zero)
  have hex: "\<forall>c \<in> set ?ds. isHex c"
    using toString16_hex [of secret]
    by (auto simp: padStart_zero isHex_def hexDigitValue_def)
  have ev: "even (length ?ds)" by (simp only: l64) simp
  have val: "hexValue ?ds = secret"
    by (simp add: padStart_zero hexValue_zeros toString16_value)
  have k: "hexToBytes (handleDecrypt_keyHex secret) = Inr (hexToBytes_loop ?ds)"
    unfolding handleDecrypt_keyHex_def hexToBytes_0x using l64 by simp
  have kl: "length (hexToBytes_loop ?ds) = 32"
    using length_hexToBytes_loop [OF ev] l64 by simp
  have "importAesKey (handleDecrypt_keyHex secret) = Inr (hexToBytes_loop ?ds)"
    by (simp add: importAesKey_def k kl)
  moreover have "bigEndian (hexToBytes_loop ?ds) = secret"
    using bigEndian_hexToBytes_loop [OF hex ev] val by simp
  ultimately show ?thesis using kl by blast
qed

text \<open>
  The secret 5.
\<close>

theorem content_key_is_the_secret_witness:
  "\<exists>key. importAesKey (handleDecrypt_keyHex 5) = Inr key \<and> length key = 32 \<and> bigEndian key = 5"
  using content_key_is_the_secret [of 5] by simp

end
